theory Spec2Isabelle
  imports Main "HOL-Library.AList"
begin

section \<open>Values\<close>

text \<open>
  The payloads the cache stores and the fetch functions return are JSON values: what
  \<^verbatim>\<open>JSON.stringify\<close> writes and \<^verbatim>\<open>JSON.parse\<close> reads back. Numbers are integers here
  (the timestamps are epoch milliseconds); \<^verbatim>\<open>undefined\<close>, functions and the other values
  that \<^verbatim>\<open>JSON.stringify\<close> drops or rewrites are outside the type.
\<close>

datatype json =
    JNull
  | JBool bool
  | JNum int
  | JStr string
  | JArr "json list"
  | JObj "(string \<times> json) list"

text \<open>JavaScript's \<^verbatim>\<open>ToBoolean\<close>, as \<^verbatim>\<open>if (cachedData)\<close> applies it.\<close>

fun truthy :: "json \<Rightarrow> bool" where
  "truthy JNull = False"
| "truthy (JBool b) = b"
| "truthy (JNum n) = (n \<noteq> 0)"
| "truthy (JStr s) = (s \<noteq> [])"
| "truthy (JArr xs) = True"
| "truthy (JObj kvs) = True"

section \<open>The backing file\<close>

text \<open>
  Each module owns one file. The file is absent (\<open>None\<close>) or holds text; the text either
  fails \<^verbatim>\<open>JSON.parse\<close> (\<open>Unparsable\<close>) or parses to a document of the shape the module
  itself writes (\<open>Doc d\<close>). Writing \<^verbatim>\<open>JSON.stringify(d)\<close> and parsing it again gives \<open>d\<close>,
  so the file is kept as the parsed document. \<open>readable\<close> and \<open>writable\<close> say whether
  \<^verbatim>\<open>fs.readFile\<close> of an existing file, and \<^verbatim>\<open>fs.mkdir\<close>/\<^verbatim>\<open>fs.writeFile\<close>, succeed;
  \<open>writes\<close> counts the completed calls of \<^verbatim>\<open>fs.writeFile\<close>, so that a call that wrote
  the same text again differs from one that did not write.
\<close>

datatype js_error = ENOENT | EACCES | SyntaxError

datatype 'd content = Unparsable | Doc 'd

record 'd disk =
  stored :: "'d content option"
  readable :: bool
  writable :: bool
  writes :: nat

definition fs_access :: "'d disk \<Rightarrow> js_error + unit" where
  "fs_access w = (if stored w = None then Inl ENOENT else Inr ())"

definition fs_mkdir :: "'d disk \<Rightarrow> js_error + 'd disk" where
  "fs_mkdir w = (if writable w then Inr w else Inl EACCES)"

definition fs_writeFile :: "'d \<Rightarrow> 'd disk \<Rightarrow> js_error + 'd disk" where
  "fs_writeFile d w =
     (if writable w then Inr (w\<lparr>stored := Some (Doc d), writes := Suc (writes w)\<rparr>)
      else Inl EACCES)"

definition fs_readFile :: "'d disk \<Rightarrow> js_error + 'd content" where
  "fs_readFile w =
     (case stored w of
        None \<Rightarrow> Inl ENOENT
      | Some c \<Rightarrow> if readable w then Inr c else Inl EACCES)"

definition JSON_parse :: "'d content \<Rightarrow> js_error + 'd" where
  "JSON_parse c = (case c of Unparsable \<Rightarrow> Inl SyntaxError | Doc d \<Rightarrow> Inr d)"

section \<open>cache.js\<close>

text \<open>
  The cache document is an object from keys to entries
  \<^verbatim>\<open>{ timestamp, data }\<close>, kept as an association list in the order \<^verbatim>\<open>for ... in\<close>
  enumerates it; lookups are \<open>map_of\<close>, \<^verbatim>\<open>cache[key] = e\<close> is \<open>set_property\<close> below
  and \<^verbatim>\<open>delete cache[key]\<close> is \<open>AList.delete\<close>. An object holds each key once:
  \<open>distinct (map fst cache)\<close>. Every reading of \<^verbatim>\<open>Date.now()\<close> is a parameter.

  \<open>Doc cache\<close> stands for text that parses to such an object and nothing else. Text that
  parses to another value (an array, \<^verbatim>\<open>null\<close>, a number, an object with entries of
  another shape) is not a state of this model, and the statements below that depend on
  what the file holds name the document it holds.
\<close>

record cache_entry =
  timestamp :: int
  data :: json

type_synonym cache_doc = "(string \<times> cache_entry) list"

definition CACHE_DURATION :: int where
  "CACHE_DURATION = 24 * 60 * 60 * 1000"

text \<open>
  The assignment \<^verbatim>\<open>cache[key] = e\<close> on a parsed object. A key the object has keeps its
  place and gets the new entry; a new key becomes a property, enumerated last (the
  engine enumerates a new key that is an array index before the others: a difference
  of order only, and \<open>map_of\<close> does not see it). The one exception is \<^verbatim>\<open>__proto__\<close>: when
  the object has no property of that name, the assignment runs the setter inherited from
  \<^verbatim>\<open>Object.prototype\<close>, which changes the object's prototype and stores no property, so
  \<^verbatim>\<open>JSON.stringify\<close> writes the object as it was. (\<^verbatim>\<open>JSON.parse\<close> does make
  \<^verbatim>\<open>__proto__\<close> a property when the text has that key; then the assignment is the
  ordinary one.)
\<close>

definition set_property :: "string \<Rightarrow> cache_entry \<Rightarrow> cache_doc \<Rightarrow> cache_doc" where
  "set_property key e cache =
     (if key = ''__proto__'' \<and> map_of cache key = None then cache
      else AList.update key e cache)"

definition initializeCache :: "cache_doc disk \<Rightarrow> js_error + cache_doc disk" where
  "initializeCache w =
     (case fs_access w of
        Inr _ \<Rightarrow> Inr w
      | Inl _ \<Rightarrow>
          (case fs_mkdir w of
             Inl e \<Rightarrow> Inl e
           | Inr w1 \<Rightarrow> fs_writeFile [] w1))"

text \<open>
  \<open>getFromCache\<close> only reads; the disk it returns is the one it was given. An entry is a
  non-null object, so \<^verbatim>\<open>cache[key] &&\<close> asks whether the key is present.
\<close>

definition getFromCache :: "string \<Rightarrow> int \<Rightarrow> cache_doc disk \<Rightarrow> json \<times> cache_doc disk" where
  "getFromCache key now w =
     (case fs_readFile w of
        Inl _ \<Rightarrow> (JNull, w)
      | Inr text \<Rightarrow>
          (case JSON_parse text of
             Inl _ \<Rightarrow> (JNull, w)
           | Inr cache \<Rightarrow>
               (case map_of cache key of
                  Some e \<Rightarrow>
                    if now - timestamp e < CACHE_DURATION then (data e, w) else (JNull, w)
                | None \<Rightarrow> (JNull, w))))"

definition saveToCache :: "string \<Rightarrow> json \<Rightarrow> int \<Rightarrow> cache_doc disk \<Rightarrow> bool \<times> cache_doc disk" where
  "saveToCache key payload now w =
     (case initializeCache w of
        Inl _ \<Rightarrow> (False, w)
      | Inr w1 \<Rightarrow>
          (case fs_readFile w1 of
             Inl _ \<Rightarrow> (False, w1)
           | Inr text \<Rightarrow>
               (case JSON_parse text of
                  Inl _ \<Rightarrow> (False, w1)
                | Inr cache \<Rightarrow>
                    (case fs_writeFile
                            (set_property key \<lparr>timestamp = now, data = payload\<rparr> cache) w1 of
                       Inl _ \<Rightarrow> (False, w1)
                     | Inr w2 \<Rightarrow> (True, w2)))))"

text \<open>
  The sweep's loop: \<open>keys\<close> are the keys \<^verbatim>\<open>for (const key in cache)\<close> still has to
  visit, \<open>clock i\<close> is the \<open>i\<close>-th reading of \<^verbatim>\<open>Date.now()\<close> of the call (one per visited
  key). A key deleted before its turn is not visited.
\<close>

fun sweep :: "(nat \<Rightarrow> int) \<Rightarrow> nat \<Rightarrow> string list \<Rightarrow> cache_doc \<Rightarrow> nat \<Rightarrow> cache_doc \<times> nat" where
  "sweep clock i [] cache removedCount = (cache, removedCount)"
| "sweep clock i (key # keys) cache removedCount =
     (case map_of cache key of
        None \<Rightarrow> sweep clock i keys cache removedCount
      | Some e \<Rightarrow>
          if clock i - timestamp e \<ge> CACHE_DURATION
          then sweep clock (Suc i) keys (AList.delete key cache) (Suc removedCount)
          else sweep clock (Suc i) keys cache removedCount)"

definition clearExpiredCache :: "(nat \<Rightarrow> int) \<Rightarrow> cache_doc disk \<Rightarrow> nat \<times> cache_doc disk" where
  "clearExpiredCache clock w =
     (case fs_readFile w of
        Inl _ \<Rightarrow> (0, w)
      | Inr text \<Rightarrow>
          (case JSON_parse text of
             Inl _ \<Rightarrow> (0, w)
           | Inr cache0 \<Rightarrow>
               (let (cache, removedCount) = sweep clock 0 (map fst cache0) cache0 0 in
                if removedCount > 0
                then (case fs_writeFile cache w of
                        Inl _ \<Rightarrow> (0, w)
                      | Inr w1 \<Rightarrow> (removedCount, w1))
                else (removedCount, w))))"

text \<open>
  \<open>fetchFn\<close> is the outcome of the caller's function when it is called: \<open>Inr v\<close> when its
  promise resolves with \<open>v\<close>, \<open>Inl err\<close> when it rejects. The result of
  \<open>getCachedOrFetch\<close> is what its promise settles to, the disk afterwards, and how many
  times \<open>fetchFn\<close> was called. \<open>now1\<close> is the clock reading of the lookup, \<open>now2\<close> the one
  of the save.
\<close>

definition getCachedOrFetch ::
  "string \<Rightarrow> 'e + json \<Rightarrow> bool \<Rightarrow> int \<Rightarrow> int \<Rightarrow> cache_doc disk
     \<Rightarrow> ('e + json) \<times> cache_doc disk \<times> nat" where
  "getCachedOrFetch key fetchFn forceRefresh now1 now2 w =
     (let (cachedData, w1) =
            (if \<not> forceRefresh then getFromCache key now1 w else (JNull, w))
      in if truthy cachedData then (Inr cachedData, w1, 0)
         else (case fetchFn of
                 Inl err \<Rightarrow> (Inl err, w1, 1)
               | Inr freshData \<Rightarrow>
                   (let (saved, w2) = saveToCache key freshData now2 w1
                    in (Inr freshData, w2, 1))))"

section \<open>favorites.js\<close>

text \<open>
  A favorite is an object with the identifier \<^verbatim>\<open>idMeal\<close> and whatever else the recipe
  carries (the record's extension); the favorites document is an array of them.
\<close>

record recipe =
  idMeal :: string

definition initializeFavorites ::
  "'a recipe_scheme list disk \<Rightarrow> js_error + 'a recipe_scheme list disk" where
  "initializeFavorites w =
     (case fs_access w of
        Inr _ \<Rightarrow> Inr w
      | Inl _ \<Rightarrow>
          (case fs_mkdir w of
             Inl e \<Rightarrow> Inl e
           | Inr w1 \<Rightarrow> fs_writeFile [] w1))"

definition getFavorites ::
  "'a recipe_scheme list disk \<Rightarrow> 'a recipe_scheme list \<times> 'a recipe_scheme list disk" where
  "getFavorites w =
     (case initializeFavorites w of
        Inl _ \<Rightarrow> ([], w)
      | Inr w1 \<Rightarrow>
          (case fs_readFile w1 of
             Inl _ \<Rightarrow> ([], w1)
           | Inr text \<Rightarrow>
               (case JSON_parse text of
                  Inl _ \<Rightarrow> ([], w1)
                | Inr favorites \<Rightarrow> (favorites, w1))))"

definition addFavorite ::
  "'a recipe_scheme \<Rightarrow> 'a recipe_scheme list disk \<Rightarrow> bool \<times> 'a recipe_scheme list disk" where
  "addFavorite recipe w =
     (case initializeFavorites w of
        Inl _ \<Rightarrow> (False, w)
      | Inr w1 \<Rightarrow>
          (let (favorites, w2) = getFavorites w1
           in if list_ex (\<lambda>fav. idMeal fav = idMeal recipe) favorites then (False, w2)
              else (case fs_writeFile (favorites @ [recipe]) w2 of
                      Inl _ \<Rightarrow> (False, w2)
                    | Inr w3 \<Rightarrow> (True, w3))))"

definition removeFavorite ::
  "string \<Rightarrow> 'a recipe_scheme list disk \<Rightarrow> bool \<times> 'a recipe_scheme list disk" where
  "removeFavorite recipeId w =
     (case initializeFavorites w of
        Inl _ \<Rightarrow> (False, w)
      | Inr w1 \<Rightarrow>
          (let (favorites, w2) = getFavorites w1;
               updatedFavorites = filter (\<lambda>fav. idMeal fav \<noteq> recipeId) favorites
           in if length favorites = length updatedFavorites then (False, w2)
              else (case fs_writeFile updatedFavorites w2 of
                      Inl _ \<Rightarrow> (False, w2)
                    | Inr w3 \<Rightarrow> (True, w3))))"

section \<open>Calls of getCachedOrFetch in flight together\<close>

text \<open>
  Node runs one continuation at a time and switches between calls only at an
  \<^verbatim>\<open>await\<close>. A call of \<^verbatim>\<open>getCachedOrFetch(key, fetchFn)\<close> (no forced refresh) is
  therefore in one of these places: each constructor but the last two names the promise
  the call is waiting for. \<open>Fetching n\<close> and the later places carry \<open>n\<close>, the number of the
  invocation of \<open>fetchFn\<close> this call made (invocations are numbered from 0 in the order
  they happen), and the places inside \<^verbatim>\<open>saveToCache\<close> carry the fetched value.
\<close>

datatype 'e call =
    Looking
  | Fetching nat
  | Accessing nat json
  | MakingDir nat json
  | Creating nat json
  | Loading nat json
  | Storing nat json cache_doc
  | Hit json
  | Settled nat "'e + json"

text \<open>
  \<open>advance\<close> runs one call from the promise it waits for to its next \<^verbatim>\<open>await\<close> (or to its
  \<^verbatim>\<open>return\<close>), on the disk \<open>w\<close> and with \<open>n\<close> invocations of \<open>fetchFn\<close> so far;
  \<open>fetchFn i\<close> is the outcome of invocation \<open>i\<close>, and \<open>now\<close> the reading of
  \<^verbatim>\<open>Date.now()\<close> if the continuation takes one.
  \<^item> \<open>Looking\<close>: \<^verbatim>\<open>getFromCache\<close> settles; \<^verbatim>\<open>if (cachedData) return cachedData\<close>, otherwise
    \<^verbatim>\<open>fetchFn()\<close> is called.
  \<^item> \<open>Fetching\<close>: the fetch settles; a rejection leaves the function, a value enters
    \<^verbatim>\<open>saveToCache\<close>, whose first \<^verbatim>\<open>await\<close> is \<^verbatim>\<open>fs.access\<close> in \<^verbatim>\<open>initializeCache\<close>.
  \<^item> \<open>Accessing\<close>, \<open>MakingDir\<close>, \<open>Creating\<close>: \<^verbatim>\<open>initializeCache\<close>.
  \<^item> \<open>Loading\<close>: \<^verbatim>\<open>fs.readFile\<close> settles; the text is parsed and the entry set.
  \<^item> \<open>Storing\<close>: \<^verbatim>\<open>fs.writeFile\<close> settles.
  Whatever fails inside \<^verbatim>\<open>saveToCache\<close> is caught there, and \<^verbatim>\<open>getCachedOrFetch\<close> returns
  the fetched value.
\<close>

fun advance ::
  "string \<Rightarrow> (nat \<Rightarrow> 'e + json) \<Rightarrow> int \<Rightarrow> 'e call \<Rightarrow> cache_doc disk \<Rightarrow> nat
     \<Rightarrow> 'e call \<times> cache_doc disk \<times> nat" where
  "advance key fetchFn now Looking w n =
     (let (cachedData, w1) = getFromCache key now w
      in if truthy cachedData then (Hit cachedData, w1, n) else (Fetching n, w1, Suc n))"
| "advance key fetchFn now (Fetching i) w n =
     (case fetchFn i of
        Inl err \<Rightarrow> (Settled i (Inl err), w, n)
      | Inr freshData \<Rightarrow> (Accessing i freshData, w, n))"
| "advance key fetchFn now (Accessing i v) w n =
     (case fs_access w of
        Inr _ \<Rightarrow> (Loading i v, w, n)
      | Inl _ \<Rightarrow> (MakingDir i v, w, n))"
| "advance key fetchFn now (MakingDir i v) w n =
     (case fs_mkdir w of
        Inl _ \<Rightarrow> (Settled i (Inr v), w, n)
      | Inr w1 \<Rightarrow> (Creating i v, w1, n))"
| "advance key fetchFn now (Creating i v) w n =
     (case fs_writeFile [] w of
        Inl _ \<Rightarrow> (Settled i (Inr v), w, n)
      | Inr w1 \<Rightarrow> (Loading i v, w1, n))"
| "advance key fetchFn now (Loading i v) w n =
     (case fs_readFile w of
        Inl _ \<Rightarrow> (Settled i (Inr v), w, n)
      | Inr text \<Rightarrow>
          (case JSON_parse text of
             Inl _ \<Rightarrow> (Settled i (Inr v), w, n)
           | Inr cache \<Rightarrow>
               (Storing i v (set_property key \<lparr>timestamp = now, data = v\<rparr> cache), w, n)))"
| "advance key fetchFn now (Storing i v cache) w n =
     (case fs_writeFile cache w of
        Inl _ \<Rightarrow> (Settled i (Inr v), w, n)
      | Inr w1 \<Rightarrow> (Settled i (Inr v), w1, n))"
| "advance key fetchFn now (Hit v) w n = (Hit v, w, n)"
| "advance key fetchFn now (Settled i r) w n = (Settled i r, w, n)"

text \<open>
  The calls in flight share the disk and the fetch function. A schedule is the order in
  which the event loop resumes them: \<open>(i, now)\<close> resumes call \<open>i\<close> at clock reading \<open>now\<close>.
\<close>

record 'e flight =
  cache_file :: "cache_doc disk"
  fetches :: nat
  calls :: "'e call list"

definition resume :: "string \<Rightarrow> (nat \<Rightarrow> 'e + json) \<Rightarrow> nat \<times> int \<Rightarrow> 'e flight \<Rightarrow> 'e flight" where
  "resume key fetchFn ev s =
     (if fst ev < length (calls s)
      then (let (c, w, n) =
                  advance key fetchFn (snd ev) (calls s ! fst ev) (cache_file s) (fetches s)
            in \<lparr>cache_file = w, fetches = n, calls = (calls s)[fst ev := c]\<rparr>)
      else s)"

fun run :: "string \<Rightarrow> (nat \<Rightarrow> 'e + json) \<Rightarrow> (nat \<times> int) list \<Rightarrow> 'e flight \<Rightarrow> 'e flight" where
  "run key fetchFn [] s = s"
| "run key fetchFn (ev # evs) s = run key fetchFn evs (resume key fetchFn ev s)"

definition start :: "cache_doc disk \<Rightarrow> nat \<Rightarrow> 'e flight" where
  "start w N = \<lparr>cache_file = w, fetches = 0, calls = replicate N Looking\<rparr>"

text \<open>A call has missed the cache once it has left \<open>Looking\<close> other than by a hit.\<close>

fun missed :: "'e call \<Rightarrow> bool" where
  "missed Looking = False"
| "missed (Hit v) = False"
| "missed c = True"

text \<open>The invocation of \<open>fetchFn\<close> a call made, if it made one.\<close>

fun invocation :: "'e call \<Rightarrow> nat option" where
  "invocation Looking = None"
| "invocation (Hit v) = None"
| "invocation (Fetching i) = Some i"
| "invocation (Accessing i v) = Some i"
| "invocation (MakingDir i v) = Some i"
| "invocation (Creating i v) = Some i"
| "invocation (Loading i v) = Some i"
| "invocation (Storing i v cache) = Some i"
| "invocation (Settled i r) = Some i"

text \<open>
  How far a call has come: every resumption of a call that has not settled moves it to a
  later place, and the seventh at the latest settles it.
\<close>

fun place :: "'e call \<Rightarrow> nat" where
  "place Looking = 0"
| "place (Fetching i) = 1"
| "place (Accessing i v) = 2"
| "place (MakingDir i v) = 3"
| "place (Creating i v) = 4"
| "place (Loading i v) = 5"
| "place (Storing i v cache) = 6"
| "place (Hit v) = 7"
| "place (Settled i r) = 7"

text \<open>
  Every call misses the cache: along the schedule, whenever a call that is \<open>Looking\<close> is
  resumed, \<open>getFromCache\<close> on the disk of that moment returns nothing truthy.
\<close>

fun lookups_miss ::
  "string \<Rightarrow> (nat \<Rightarrow> 'e + json) \<Rightarrow> (nat \<times> int) list \<Rightarrow> 'e flight \<Rightarrow> bool" where
  "lookups_miss key fetchFn [] s = True"
| "lookups_miss key fetchFn (ev # evs) s =
     ((fst ev < length (calls s) \<and> calls s ! fst ev = Looking \<longrightarrow>
         \<not> truthy (fst (getFromCache key (snd ev) (cache_file s)))) \<and>
      lookups_miss key fetchFn evs (resume key fetchFn ev s))"

text \<open>
  A call that carries invocation \<open>i\<close> and a value carries the value invocation \<open>i\<close>
  resolved with; a settled one holds the outcome of its invocation.
\<close>

fun agrees :: "(nat \<Rightarrow> 'e + json) \<Rightarrow> 'e call \<Rightarrow> bool" where
  "agrees f (Accessing i v) = (f i = Inr v)"
| "agrees f (MakingDir i v) = (f i = Inr v)"
| "agrees f (Creating i v) = (f i = Inr v)"
| "agrees f (Loading i v) = (f i = Inr v)"
| "agrees f (Storing i v cache) = (f i = Inr v)"
| "agrees f (Settled i r) = (r = f i)"
| "agrees f c = True"

text \<open>
  The invariant of the calls in flight: \<open>fetchFn\<close> has been invoked once for each call that
  missed, the invocations the calls carry have happened, no two calls carry the same one,
  and each call agrees with its own.
\<close>

definition sound :: "(nat \<Rightarrow> 'e + json) \<Rightarrow> 'e flight \<Rightarrow> bool" where
  "sound f s \<longleftrightarrow>
     fetches s = length (filter missed (calls s)) \<and>
     (\<forall>j < length (calls s). \<forall>i. invocation (calls s ! j) = Some i \<longrightarrow> i < fetches s) \<and>
     (\<forall>j < length (calls s). \<forall>k < length (calls s). \<forall>i.
        invocation (calls s ! j) = Some i \<and> invocation (calls s ! k) = Some i \<longrightarrow> j = k) \<and>
     (\<forall>j < length (calls s). agrees f (calls s ! j))"

section \<open>Notions used in the statements\<close>

text \<open>An entry's freshness window has elapsed at \<open>now\<close>.\<close>

definition expired :: "int \<Rightarrow> string \<times> cache_entry \<Rightarrow> bool" where
  "expired now ke = (now - timestamp (snd ke) \<ge> CACHE_DURATION)"

text \<open>The backing file is absent, cannot be read, or holds text that does not parse.\<close>

definition unavailable :: "'d disk \<Rightarrow> bool" where
  "unavailable w = (stored w = None \<or> \<not> readable w \<or> stored w = Some Unparsable)"

text \<open>A readable, writable file holding document \<open>d\<close>; one holding unparsable text.\<close>

definition holding :: "'d \<Rightarrow> 'd disk" where
  "holding d = \<lparr>stored = Some (Doc d), readable = True, writable = True, writes = 0\<rparr>"

definition corrupt :: "'d disk" where
  "corrupt = \<lparr>stored = Some Unparsable, readable = True, writable = True, writes = 0\<rparr>"

text \<open>A fetch function with the same outcome at every invocation; a clock that stands still.\<close>

definition always :: "'e + json \<Rightarrow> nat \<Rightarrow> 'e + json" where
  "always r i = r"

definition steady :: "int \<Rightarrow> nat \<Rightarrow> int" where
  "steady now i = now"

text \<open>Two calls resumed in turn, five times each, the clock advancing by one each round.\<close>

definition in_turns :: "(nat \<times> int) list" where
  "in_turns = [(0, 0), (1, 0), (0, 1), (1, 1), (0, 2), (1, 2), (0, 3), (1, 3), (0, 4), (1, 4)]"

text \<open>The same, for seven rounds: as many resumptions as a call can need.\<close>

definition seven_rounds :: "(nat \<times> int) list" where
  "seven_rounds = [(0, 0), (1, 0), (0, 1), (1, 1), (0, 2), (1, 2), (0, 3), (1, 3), (0, 4), (1, 4),
                   (0, 5), (1, 5), (0, 6), (1, 6)]"

section \<open>The file system and the cache primitives\<close>

lemmas fs_defs = fs_access_def fs_mkdir_def fs_writeFile_def fs_readFile_def JSON_parse_def

lemma getFromCache_frame: "snd (getFromCache key now w) = w"
  by (simp add: getFromCache_def split: sum.splits option.splits)

lemma getFromCache_fresh:
  "stored w = Some (Doc cache) \<Longrightarrow> readable w \<Longrightarrow> map_of cache key = Some e \<Longrightarrow>
   now - timestamp e < CACHE_DURATION \<Longrightarrow> getFromCache key now w = (data e, w)"
  by (simp add: getFromCache_def fs_defs)



text \<open>
  Under the key \<^verbatim>\<open>__proto__\<close> nothing is stored, although \<open>saveToCache\<close> writes and
  reports success: the document is written back as it was, and the lookup that follows
  finds no entry.
\<close>

lemma saveToCache_proto:
  assumes "stored w = Some (Doc cache)" and "map_of cache ''__proto__'' = None"
    and "readable w" and "writable w"
  shows "saveToCache ''__proto__'' v now w
           = (True, w\<lparr>stored := Some (Doc cache), writes := Suc (writes w)\<rparr>) \<and>
         getFromCache ''__proto__'' now' (snd (saveToCache ''__proto__'' v now w))
           = (JNull, snd (saveToCache ''__proto__'' v now w))"
proof -
  have s: "saveToCache ''__proto__'' v now w
           = (True, w\<lparr>stored := Some (Doc cache), writes := Suc (writes w)\<rparr>)"
    using assms by (simp add: saveToCache_def initializeCache_def fs_defs set_property_def)
  show ?thesis
    using assms by (simp add: s getFromCache_def fs_defs)
qed

lemma saveToCache_unparsable:
  "stored w = Some Unparsable \<Longrightarrow> saveToCache key v now w = (False, w)"
  by (auto simp: saveToCache_def initializeCache_def fs_defs split: sum.splits)

section \<open>Reading the cache\<close>

text \<open>
  Claim C9. For every key whose cache entry exists but is stale
  (\<open>now - timestamp \<ge> CACHE_DURATION\<close>), \<open>getFromCache\<close> returns \<^verbatim>\<open>null\<close> and leaves the
  disk as it was: the stale entry is still there, and nothing was written.
\<close>

theorem getFromCache_stale:
  "stored w = Some (Doc cache) \<Longrightarrow> map_of cache key = Some e \<Longrightarrow>
   now - timestamp e \<ge> CACHE_DURATION \<Longrightarrow> getFromCache key now w = (JNull, w)"
  by (simp add: getFromCache_def fs_defs)

theorem getFromCache_stale_witness:
  "getFromCache ''k1'' 90000000 (holding [(''k1'', \<lparr>timestamp = 0, data = JStr ''v1''\<rparr>)])
     = (JNull, holding [(''k1'', \<lparr>timestamp = 0, data = JStr ''v1''\<rparr>)])"
  using getFromCache_stale
          [of "holding [(''k1'', \<lparr>timestamp = 0, data = JStr ''v1''\<rparr>)]"
              "[(''k1'', \<lparr>timestamp = 0, data = JStr ''v1''\<rparr>)]"
              "''k1''" "\<lparr>timestamp = 0, data = JStr ''v1''\<rparr>" 90000000]
  by (simp add: holding_def CACHE_DURATION_def)

text \<open>
  Claim C10. Whatever the state of the backing file (absent, unreadable, or holding text
  that does not parse), \<open>getFavorites\<close> returns the empty list and \<open>getFromCache\<close>
  returns \<^verbatim>\<open>null\<close>. Neither function has an error among its results: every failure of
  a file system call or of the parser is caught inside.
\<close>

theorem load_recovers:
  "(unavailable fw \<longrightarrow> fst (getFavorites fw) = []) \<and>
   (unavailable cw \<longrightarrow> getFromCache key now cw = (JNull, cw))"
  by (auto simp: unavailable_def getFavorites_def initializeFavorites_def getFromCache_def
                 fs_defs
           split: sum.splits option.splits content.splits if_splits)

theorem load_recovers_witness:
  "unavailable (corrupt :: recipe list disk) \<and> unavailable (corrupt :: cache_doc disk) \<and>
   fst (getFavorites (corrupt :: recipe list disk)) = [] \<and>
   getFromCache ''k1'' 0 corrupt = (JNull, corrupt)"
  using load_recovers [of "corrupt :: recipe list disk" corrupt "''k1''" 0]
  by (simp add: unavailable_def corrupt_def)

section \<open>Saving and reading back\<close>




section \<open>getCachedOrFetch, one call at a time\<close>

text \<open>
  Claim C3. When \<open>fetchFn\<close> rejects, \<open>getCachedOrFetch\<close> leaves the disk as it was,
  whatever the key; and whenever it calls \<open>fetchFn\<close> (the lookup was skipped by
  \<open>forceRefresh\<close>, or returned nothing truthy) its own promise rejects with the same
  error, after that one call.
\<close>

theorem failed_fetch_not_cached:
  "getCachedOrFetch key (Inl err) forceRefresh now1 now2 w = (result, w', n) \<Longrightarrow>
   w' = w \<and>
   (forceRefresh \<or> \<not> truthy (fst (getFromCache key now1 w)) \<longrightarrow> result = Inl err \<and> n = 1)"
  using getFromCache_frame[of key now1 w]
  by (auto simp: getCachedOrFetch_def split: prod.splits if_splits)

theorem failed_fetch_not_cached_witness:
  "getCachedOrFetch ''k1'' (Inl ''boom'') False 0 0 (holding [])
     = (Inl ''boom'', holding [], 1) \<and>
   \<not> truthy (fst (getFromCache ''k1'' 0 (holding [])))"
proof -
  have r: "getCachedOrFetch ''k1'' (Inl ''boom'') False 0 0 (holding [])
             = (Inl ''boom'', holding [], 1)"
    by (simp add: getCachedOrFetch_def getFromCache_def fs_defs holding_def)
  show ?thesis
    using r failed_fetch_not_cached[OF r]
    by (simp add: getFromCache_def fs_defs holding_def)
qed

text \<open>
  Claim C2, as stated: a fresh entry is returned without calling \<open>fetchFn\<close>, also when
  its payload is falsy. It fails for the payload \<open>0\<close>: \<open>getFromCache\<close> returns it, but
  \<^verbatim>\<open>if (cachedData)\<close> is false for it, so \<open>fetchFn\<close> is called, its value returned and
  the entry overwritten.
\<close>

theorem fresh_falsy_counterexample:
  "getFromCache ''k1'' 1000 (holding [(''k1'', \<lparr>timestamp = 0, data = JNum 0\<rparr>)])
     = (JNum 0, holding [(''k1'', \<lparr>timestamp = 0, data = JNum 0\<rparr>)]) \<and>
   getCachedOrFetch ''k1'' (Inr (JStr ''v1'') :: unit + json) False 1000 1000
       (holding [(''k1'', \<lparr>timestamp = 0, data = JNum 0\<rparr>)])
     = (Inr (JStr ''v1''),
        \<lparr>stored = Some (Doc [(''k1'', \<lparr>timestamp = 1000, data = JStr ''v1''\<rparr>)]),
         readable = True, writable = True, writes = 1\<rparr>, 1)"
  by (simp add: getCachedOrFetch_def getFromCache_def saveToCache_def initializeCache_def
        fs_defs set_property_def holding_def CACHE_DURATION_def)

text \<open>
  Claim C2, amended: for every key whose entry exists and is fresh, and whose payload is
  truthy (anything but \<^verbatim>\<open>null\<close>, \<^verbatim>\<open>false\<close>, \<open>0\<close> and the empty string),
  \<open>getCachedOrFetch\<close> without forced refresh returns the payload, does not call
  \<open>fetchFn\<close> and leaves the disk as it was.
\<close>

theorem fresh_truthy_hit:
  assumes "stored w = Some (Doc cache)" and "readable w" and "map_of cache key = Some e"
    and "now1 - timestamp e < CACHE_DURATION" and "truthy (data e)"
  shows "getCachedOrFetch key fetchFn False now1 now2 w = (Inr (data e), w, 0)"
  using getFromCache_fresh[OF assms(1-4)] assms(5) by (simp add: getCachedOrFetch_def)

theorem fresh_truthy_hit_witness:
  "truthy (JArr []) \<and> (1000::int) - 0 < CACHE_DURATION \<and>
   getCachedOrFetch ''k1'' (Inr (JStr ''v1'') :: unit + json) False 1000 1000
       (holding [(''k1'', \<lparr>timestamp = 0, data = JArr []\<rparr>)])
     = (Inr (JArr []), holding [(''k1'', \<lparr>timestamp = 0, data = JArr []\<rparr>)], 0)"
  using fresh_truthy_hit
          [of "holding [(''k1'', \<lparr>timestamp = 0, data = JArr []\<rparr>)]"
              "[(''k1'', \<lparr>timestamp = 0, data = JArr []\<rparr>)]"
              "''k1''" "\<lparr>timestamp = 0, data = JArr []\<rparr>" 1000
              "Inr (JStr ''v1'') :: unit + json" 1000]
  by (simp add: holding_def CACHE_DURATION_def)

text \<open>A fresh entry with a falsy payload counts as a miss, for every such payload.\<close>

lemma fresh_falsy_refetched:
  assumes "stored w = Some (Doc cache)" and "readable w" and "map_of cache key = Some e"
    and "now1 - timestamp e < CACHE_DURATION" and "\<not> truthy (data e)"
  shows "getCachedOrFetch key (Inr v) False now1 now2 w
           = (Inr v, snd (saveToCache key v now2 w), 1)"
  using getFromCache_fresh[OF assms(1-4)] assms(5)
  by (simp add: getCachedOrFetch_def split: prod.splits)




section \<open>The expiry sweep\<close>

lemma delete_middle:
  assumes d: "distinct (map fst (pre @ (k, e) # rest))"
  shows "AList.delete k (pre @ (k, e) # rest) = pre @ rest"
proof -
  have split: "AList.delete k (pre @ (k, e) # rest) = AList.delete k pre @ AList.delete k rest"
    by (simp add: AList.delete_eq)
  have "k \<notin> fst ` set pre" and "k \<notin> fst ` set rest"
    using d by auto
  then show ?thesis
    by (simp add: split)
qed

lemma map_of_middle:
  "distinct (map fst (pre @ (k, e) # rest)) \<Longrightarrow> map_of (pre @ (k, e) # rest) k = Some e"
  by (induction pre) auto

text \<open>
  The loop, with \<open>pre\<close> the entries already visited and kept and \<open>rest\<close> the ones still to
  visit, while the clock reads \<open>now\<close> at each visit.
\<close>

lemma sweep_steady:
  assumes "distinct (map fst (pre @ rest))"
    and "\<forall>j. i \<le> j \<and> j < i + length rest \<longrightarrow> clock j = now"
  shows "sweep clock i (map fst rest) (pre @ rest) c =
           (pre @ filter (\<lambda>ke. \<not> expired now ke) rest, c + length (filter (expired now) rest))"
  using assms
proof (induction rest arbitrary: pre i c)
  case Nil
  then show ?case by simp
next
  case (Cons ke rest)
  obtain k e where ke: "ke = (k, e)" by (cases ke)
  have look: "map_of (pre @ (k, e) # rest) k = Some e"
    using Cons.prems(1) unfolding ke by (rule map_of_middle)
  have del: "AList.delete k (pre @ (k, e) # rest) = pre @ rest"
    using Cons.prems(1) unfolding ke by (rule delete_middle)
  have here: "clock i = now" using Cons.prems(2) by simp
  have later: "\<forall>j. Suc i \<le> j \<and> j < Suc i + length rest \<longrightarrow> clock j = now"
    using Cons.prems(2) by simp
  show ?case
  proof (cases "expired now (k, e)")
    case True
    have d: "distinct (map fst (pre @ rest))" using Cons.prems(1) by (simp add: ke)
    show ?thesis
      using True Cons.IH[OF d later, of "Suc c"]
      by (simp add: ke look del here expired_def del: map_of_append)
  next
    case False
    have d: "distinct (map fst ((pre @ [(k, e)]) @ rest))" using Cons.prems(1) by (simp add: ke)
    show ?thesis
      using False Cons.IH[OF d later, of c]
      by (simp add: ke look here expired_def del: map_of_append)
  qed
qed

text \<open>
  Claim C6. For every cache document (an object: each key once) in a file that can be read
  and written, and a clock that reads \<open>now\<close> throughout the sweep, \<open>clearExpiredCache\<close>
  returns the number of entries with \<open>now - timestamp \<ge> CACHE_DURATION\<close>; if there is
  none it writes nothing, otherwise it writes once, and the document then holds exactly
  the other entries, unchanged and in their order.
\<close>

theorem clearExpiredCache_spec:
  assumes "stored w = Some (Doc cache)" and "distinct (map fst cache)"
    and "readable w" and "writable w"
    and "\<forall>j < length cache. clock j = now"
  shows "clearExpiredCache clock w =
           (length (filter (expired now) cache),
            if filter (expired now) cache = [] then w
            else w\<lparr>stored := Some (Doc (filter (\<lambda>ke. \<not> expired now ke) cache)),
                   writes := Suc (writes w)\<rparr>)"
proof -
  have "sweep clock 0 (map fst cache) ([] @ cache) 0 =
          ([] @ filter (\<lambda>ke. \<not> expired now ke) cache, 0 + length (filter (expired now) cache))"
    by (rule sweep_steady) (use assms in auto)
  then show ?thesis
    using assms by (simp add: clearExpiredCache_def fs_defs)
qed

theorem clearExpiredCache_spec_witness:
  "clearExpiredCache (steady 90000000)
     (holding [(''a'', \<lparr>timestamp = 89999000, data = JStr ''x''\<rparr>),
               (''b'', \<lparr>timestamp = 0, data = JStr ''y''\<rparr>),
               (''c'', \<lparr>timestamp = 89999999, data = JNull\<rparr>)])
     = (1, \<lparr>stored = Some (Doc [(''a'', \<lparr>timestamp = 89999000, data = JStr ''x''\<rparr>),
                                 (''c'', \<lparr>timestamp = 89999999, data = JNull\<rparr>)]),
            readable = True, writable = True, writes = 1\<rparr>)"
  using clearExpiredCache_spec
          [of "holding [(''a'', \<lparr>timestamp = 89999000, data = JStr ''x''\<rparr>),
                        (''b'', \<lparr>timestamp = 0, data = JStr ''y''\<rparr>),
                        (''c'', \<lparr>timestamp = 89999999, data = JNull\<rparr>)]"
              "[(''a'', \<lparr>timestamp = 89999000, data = JStr ''x''\<rparr>),
                (''b'', \<lparr>timestamp = 0, data = JStr ''y''\<rparr>),
                (''c'', \<lparr>timestamp = 89999999, data = JNull\<rparr>)]"
              "steady 90000000" 90000000]
  by (simp add: holding_def steady_def expired_def CACHE_DURATION_def)

section \<open>Favorites\<close>

lemma getFavorites_doc:
  "stored w = Some (Doc favorites) \<Longrightarrow> readable w \<Longrightarrow> getFavorites w = (favorites, w)"
  by (simp add: getFavorites_def initializeFavorites_def fs_defs)

text \<open>
  Claim C5. For every favorites document in a file that can be read and written, and every
  recipe: if a favorite with the recipe's \<^verbatim>\<open>idMeal\<close> exists, \<open>addFavorite\<close> returns
  \<^verbatim>\<open>false\<close> and the disk is as it was; otherwise it returns \<^verbatim>\<open>true\<close> and the document is
  the old one with the recipe appended. So a document with unique identifiers has unique
  identifiers after the call.
\<close>

theorem addFavorite_spec:
  assumes "stored w = Some (Doc favorites)" and "readable w" and "writable w"
  shows "addFavorite recipe w =
           (if idMeal recipe \<in> idMeal ` set favorites then (False, w)
            else (True, w\<lparr>stored := Some (Doc (favorites @ [recipe])),
                          writes := Suc (writes w)\<rparr>))
         \<and> (distinct (map idMeal favorites) \<longrightarrow>
              (\<exists>d. stored (snd (addFavorite recipe w)) = Some (Doc d) \<and> distinct (map idMeal d)))"
proof -
  have init: "initializeFavorites w = Inr w"
    using assms by (simp add: initializeFavorites_def fs_defs)
  have ex: "list_ex (\<lambda>fav. idMeal fav = idMeal recipe) favorites
              \<longleftrightarrow> idMeal recipe \<in> idMeal ` set favorites"
    unfolding list_ex_iff image_iff by metis
  have eq: "addFavorite recipe w =
           (if idMeal recipe \<in> idMeal ` set favorites then (False, w)
            else (True, w\<lparr>stored := Some (Doc (favorites @ [recipe])),
                          writes := Suc (writes w)\<rparr>))"
    using assms by (simp add: addFavorite_def init getFavorites_doc ex fs_writeFile_def)
  show ?thesis
    using assms(1) by (auto simp: eq)
qed

theorem addFavorite_spec_witness:
  "addFavorite \<lparr>idMeal = ''52772''\<rparr> (holding []) =
     (True, \<lparr>stored = Some (Doc [\<lparr>idMeal = ''52772''\<rparr>]),
             readable = True, writable = True, writes = 1\<rparr>) \<and>
   addFavorite \<lparr>idMeal = ''52772''\<rparr> (holding [\<lparr>idMeal = ''52772''\<rparr>]) =
     (False, holding [\<lparr>idMeal = ''52772''\<rparr>])"
  using addFavorite_spec [of "holding []" "[]" "\<lparr>idMeal = ''52772''\<rparr>"]
        addFavorite_spec [of "holding [\<lparr>idMeal = ''52772''\<rparr>]" "[\<lparr>idMeal = ''52772''\<rparr>]"
                             "\<lparr>idMeal = ''52772''\<rparr>"]
  by (simp add: holding_def)

text \<open>
  Claim C8. For every favorites document in a file that can be read and written, and every
  identifier: if no favorite has it, \<open>removeFavorite\<close> returns \<^verbatim>\<open>false\<close> and the disk is as
  it was; otherwise it returns \<^verbatim>\<open>true\<close> and the document is the old one without the
  favorites of that identifier. Absence is the value \<^verbatim>\<open>false\<close>: the function has no error
  among its results.
\<close>

theorem removeFavorite_spec:
  assumes "stored w = Some (Doc favorites)" and "readable w" and "writable w"
  shows "removeFavorite recipeId w =
           (if recipeId \<notin> idMeal ` set favorites then (False, w)
            else (True, w\<lparr>stored := Some (Doc (filter (\<lambda>fav. idMeal fav \<noteq> recipeId) favorites)),
                          writes := Suc (writes w)\<rparr>))"
proof -
  have init: "initializeFavorites w = Inr w"
    using assms by (simp add: initializeFavorites_def fs_defs)
  have len: "length favorites = length (filter (\<lambda>fav. idMeal fav \<noteq> recipeId) favorites)
               \<longleftrightarrow> recipeId \<notin> idMeal ` set favorites"
    by (metis (mono_tags, lifting) filter_id_conv image_iff length_filter_less linorder_neq_iff)
  show ?thesis
    using assms by (simp add: removeFavorite_def init getFavorites_doc len fs_writeFile_def Let_def)
qed

theorem removeFavorite_spec_witness:
  "removeFavorite ''99999'' (holding [\<lparr>idMeal = ''52772''\<rparr>]) =
     (False, holding [\<lparr>idMeal = ''52772''\<rparr>]) \<and>
   removeFavorite ''52772'' (holding [\<lparr>idMeal = ''52772''\<rparr>, \<lparr>idMeal = ''52773''\<rparr>]) =
     (True, \<lparr>stored = Some (Doc [\<lparr>idMeal = ''52773''\<rparr>]),
             readable = True, writable = True, writes = 1\<rparr>)"
  using removeFavorite_spec [of "holding [\<lparr>idMeal = ''52772''\<rparr>]" "[\<lparr>idMeal = ''52772''\<rparr>]"
                                "''99999''"]
        removeFavorite_spec [of "holding [\<lparr>idMeal = ''52772''\<rparr>, \<lparr>idMeal = ''52773''\<rparr>]"
                                "[\<lparr>idMeal = ''52772''\<rparr>, \<lparr>idMeal = ''52773''\<rparr>]" "''52772''"]
  by (simp add: holding_def)

text \<open>
  When the write fails, both functions return \<^verbatim>\<open>false\<close> and the document stays as it was;
  when the file holds text that does not parse, \<open>addFavorite\<close> replaces it.
\<close>

lemma addFavorite_write_fails:
  "stored w = Some (Doc favorites) \<Longrightarrow> \<not> writable w \<Longrightarrow> addFavorite recipe w = (False, w)"
  by (auto simp: addFavorite_def initializeFavorites_def getFavorites_def fs_defs
           split: sum.splits prod.splits)

lemma removeFavorite_write_fails:
  "stored w = Some (Doc favorites) \<Longrightarrow> \<not> writable w \<Longrightarrow> removeFavorite recipeId w = (False, w)"
  by (auto simp: removeFavorite_def initializeFavorites_def getFavorites_def fs_defs Let_def
           split: sum.splits prod.splits)

lemma addFavorite_unparsable:
  "stored w = Some Unparsable \<Longrightarrow> writable w \<Longrightarrow>
   addFavorite recipe w = (True, w\<lparr>stored := Some (Doc [recipe]), writes := Suc (writes w)\<rparr>)"
  by (auto simp: addFavorite_def initializeFavorites_def getFavorites_def fs_defs
           split: sum.splits prod.splits)

section \<open>getCachedOrFetch, several calls in flight\<close>

text \<open>
  One call alone, resumed until it settles, is \<open>getCachedOrFetch\<close>: the places of a call
  and the function above describe the same code.
\<close>

lemma save_alone:
  "run key f [(0, t), (0, t), (0, t), (0, t), (0, t)]
       \<lparr>cache_file = w, fetches = n, calls = [Accessing i v]\<rparr>
     = \<lparr>cache_file = snd (saveToCache key v t w), fetches = n, calls = [Settled i (Inr v)]\<rparr>"
proof (cases "stored w")
  case None
  then show ?thesis
    by (cases "writable w"; cases "readable w")
       (simp_all add: resume_def saveToCache_def initializeCache_def fs_defs)
next
  case (Some c)
  then show ?thesis
    by (cases c; cases "writable w"; cases "readable w")
       (simp_all add: resume_def saveToCache_def initializeCache_def fs_defs)
qed

lemma one_call_alone:
  "run key (always fetchFn)
       [(0, now1), (0, now2), (0, now2), (0, now2), (0, now2), (0, now2), (0, now2)] (start w 1)
     = (case getCachedOrFetch key fetchFn False now1 now2 w of
          (r, w', n) \<Rightarrow>
            \<lparr>cache_file = w', fetches = n,
             calls = [if n = 0 then Hit (fst (getFromCache key now1 w)) else Settled 0 r]\<rparr>)"
proof -
  obtain c where g: "getFromCache key now1 w = (c, w)"
    using getFromCache_frame[of key now1 w] by (cases "getFromCache key now1 w") simp
  show ?thesis
  proof (cases "truthy c")
    case True
    then show ?thesis
      by (simp add: g getCachedOrFetch_def start_def resume_def)
  next
    case False
    show ?thesis
    proof (cases fetchFn)
      case (Inl err)
      then show ?thesis
        using False by (simp add: g getCachedOrFetch_def start_def resume_def always_def)
    next
      case (Inr v)
      have "run key (always fetchFn)
              [(0, now1), (0, now2), (0, now2), (0, now2), (0, now2), (0, now2), (0, now2)]
              (start w 1)
            = run key (always fetchFn) [(0, now2), (0, now2), (0, now2), (0, now2), (0, now2)]
                \<lparr>cache_file = w, fetches = 1, calls = [Accessing 0 v]\<rparr>"
        using False Inr by (simp add: g start_def resume_def always_def)
      then show ?thesis
        using False Inr
        by (simp only: save_alone) (simp add: g getCachedOrFetch_def split: prod.splits)
    qed
  qed
qed

subsection \<open>What one resumption does to the count of invocations\<close>

lemma count_update:
  "j < length xs \<Longrightarrow>
   length (filter P (xs[j := c])) + (if P (xs ! j) then 1 else 0)
     = length (filter P xs) + (if P c then 1 else 0)"
proof (induction xs arbitrary: j)
  case Nil
  then show ?case by simp
next
  case (Cons x xs)
  show ?case
  proof (cases j)
    case 0
    then show ?thesis by simp
  next
    case (Suc m)
    then have "m < length xs" using Cons.prems by simp
    from Cons.IH[OF this] show ?thesis by (simp add: Suc)
  qed
qed

text \<open>
  A resumed call stays without an invocation, or makes the next one (only \<open>Looking\<close> does,
  on a miss), or keeps the one it has.
\<close>

lemma advance_cases:
  assumes "advance key f now c w n = (c', w', n')"
  shows "(invocation c = None \<and> invocation c' = None \<and> n' = n \<and> \<not> missed c \<and> \<not> missed c')
       \<or> (invocation c = None \<and> invocation c' = Some n \<and> n' = Suc n \<and> \<not> missed c \<and> missed c')
       \<or> (invocation c \<noteq> None \<and> invocation c' = invocation c \<and> n' = n \<and> missed c \<and> missed c')"
  using assms
  by (cases c) (auto split: prod.splits if_splits sum.splits)

lemma advance_agrees:
  assumes "advance key f now c w n = (c', w', n')" and "agrees f c"
  shows "agrees f c'"
  using assms
  by (cases c) (auto split: prod.splits if_splits sum.splits)

subsection \<open>The invariant holds along every schedule\<close>

lemma sound_start: "sound f (start w N)"
  by (simp add: sound_def start_def)

lemma sound_resume:
  assumes "sound f s"
  shows "sound f (resume key f ev s)"
proof (cases "fst ev < length (calls s)")
  case False
  then show ?thesis using assms by (simp add: resume_def)
next
  case True
  let ?j = "fst ev"
  obtain c' w' n' where adv:
    "advance key f (snd ev) (calls s ! ?j) (cache_file s) (fetches s) = (c', w', n')"
    by (cases "advance key f (snd ev) (calls s ! ?j) (cache_file s) (fetches s)")
  have s': "resume key f ev s = \<lparr>cache_file = w', fetches = n', calls = (calls s)[?j := c']\<rparr>"
    using True adv by (simp add: resume_def)
  note cs = advance_cases[OF adv]
  have agr: "\<And>j. j < length (calls s) \<Longrightarrow> agrees f (calls s ! j)"
    using assms by (simp add: sound_def)
  have old: "\<And>j i. j < length (calls s) \<Longrightarrow> invocation (calls s ! j) = Some i \<Longrightarrow> i < fetches s"
    using assms by (auto simp: sound_def)
  have inj: "\<And>j k i. j < length (calls s) \<Longrightarrow> k < length (calls s) \<Longrightarrow>
        invocation (calls s ! j) = Some i \<Longrightarrow> invocation (calls s ! k) = Some i \<Longrightarrow> j = k"
    using assms unfolding sound_def by blast
  have ag: "agrees f c'"
    using advance_agrees[OF adv] agr[OF True] by simp
  have cnt: "length (filter missed ((calls s)[?j := c'])) + (if missed (calls s ! ?j) then 1 else 0)
     = length (filter missed (calls s)) + (if missed c' then 1 else 0)"
    using True by (rule count_update)
  have a: "n' = length (filter missed ((calls s)[?j := c']))"
    using cs cnt assms by (auto simp: sound_def split: if_splits)
  have le: "fetches s \<le> n'" using cs by auto
  have b: "\<forall>j < length (calls s). \<forall>i. invocation ((calls s)[?j := c'] ! j) = Some i \<longrightarrow> i < n'"
  proof (intro allI impI)
    fix j i assume j: "j < length (calls s)" and i: "invocation ((calls s)[?j := c'] ! j) = Some i"
    show "i < n'"
    proof (cases "j = ?j")
      case True
      then have "invocation c' = Some i" using i j by simp
      then show ?thesis using cs old[OF \<open>?j < length (calls s)\<close>]
        by auto
    next
      case False
      then have "invocation (calls s ! j) = Some i" using i by simp
      then have "i < fetches s" using old[OF j] by simp
      then show ?thesis using le by simp
    qed
  qed
  have fresh: "\<And>k i. k < length (calls s) \<Longrightarrow> k \<noteq> ?j \<Longrightarrow> invocation (calls s ! k) = Some i \<Longrightarrow>
        invocation c' \<noteq> Some i"
  proof
    fix k i assume k: "k < length (calls s)" "k \<noteq> ?j" "invocation (calls s ! k) = Some i"
      and c: "invocation c' = Some i"
    from cs show False
    proof (elim disjE conjE)
      assume "invocation c' = None" then show False using c by simp
    next
      assume "invocation c' = Some (fetches s)"
      then have "i = fetches s" using c by simp
      then show False using old[OF k(1) k(3)] by simp
    next
      assume "invocation c' = invocation (calls s ! ?j)"
      then have "invocation (calls s ! ?j) = Some i" using c by simp
      from inj[OF k(1) True k(3) this] show False using k(2) by simp
    qed
  qed
  have c: "\<forall>j < length (calls s). \<forall>k < length (calls s). \<forall>i.
        invocation ((calls s)[?j := c'] ! j) = Some i \<and> invocation ((calls s)[?j := c'] ! k) = Some i
          \<longrightarrow> j = k"
  proof (intro allI impI, elim conjE)
    fix j k i assume j: "j < length (calls s)" and k: "k < length (calls s)"
      and ij: "invocation ((calls s)[?j := c'] ! j) = Some i"
      and ik: "invocation ((calls s)[?j := c'] ! k) = Some i"
    show "j = k"
    proof (cases "j = ?j"; cases "k = ?j")
      assume "j = ?j" "k = ?j" then show ?thesis by simp
    next
      assume jj: "j = ?j" and kk: "k \<noteq> ?j"
      have "invocation c' = Some i" using ij jj j by simp
      moreover have "invocation (calls s ! k) = Some i" using ik kk by simp
      ultimately show ?thesis using fresh[OF k kk] by blast
    next
      assume jj: "j \<noteq> ?j" and kk: "k = ?j"
      have "invocation c' = Some i" using ik kk k by simp
      moreover have "invocation (calls s ! j) = Some i" using ij jj by simp
      ultimately show ?thesis using fresh[OF j jj] by blast
    next
      assume jj: "j \<noteq> ?j" and kk: "k \<noteq> ?j"
      then show ?thesis using inj[OF j k, of i] ij ik by simp
    qed
  qed
  have d: "\<forall>j < length (calls s). agrees f ((calls s)[?j := c'] ! j)"
  proof (intro allI impI)
    fix j assume j: "j < length (calls s)"
    show "agrees f ((calls s)[?j := c'] ! j)"
      using ag agr[OF j] j by (cases "j = ?j") simp_all
  qed
  show ?thesis
    unfolding s' sound_def using a b c d by simp
qed

lemma sound_run: "sound f s \<Longrightarrow> sound f (run key f evs s)"
  by (induction evs arbitrary: s) (simp_all add: sound_resume)

lemma length_calls_resume: "length (calls (resume key f ev s)) = length (calls s)"
  by (simp add: resume_def split: prod.splits)

lemma length_calls_run: "length (calls (run key f evs s)) = length (calls s)"
  by (induction evs arbitrary: s) (simp_all add: length_calls_resume)

subsection \<open>Every resumed call settles\<close>

lemma place_le: "place c \<le> 7"
  by (cases c) simp_all

lemma place_settled:
  "place c = 7 \<Longrightarrow> (\<exists>v. c = Hit v) \<or> (\<exists>i r. c = Settled i r)"
  by (cases c) simp_all

lemma advance_place: "min 7 (Suc (place c)) \<le> place (fst (advance key f now c w n))"
  by (cases c) (auto split: prod.splits sum.splits)

lemma advance_no_hit:
  assumes "c = Looking \<longrightarrow> \<not> truthy (fst (getFromCache key now w))" and "\<forall>v. c \<noteq> Hit v"
  shows "\<forall>v. fst (advance key f now c w n) \<noteq> Hit v"
  using assms by (cases c) (auto split: prod.splits sum.splits)

lemma resume_other: "fst ev \<noteq> j \<Longrightarrow> calls (resume key f ev s) ! j = calls s ! j"
  by (simp add: resume_def split: prod.splits)

lemma resume_self:
  "fst ev = j \<Longrightarrow> j < length (calls s) \<Longrightarrow>
   calls (resume key f ev s) ! j
     = fst (advance key f (snd ev) (calls s ! j) (cache_file s) (fetches s))"
  by (auto simp: resume_def split: prod.splits)

lemma resume_place:
  assumes "j < length (calls s)"
  shows "min 7 (place (calls s ! j) + (if fst ev = j then 1 else 0))
           \<le> place (calls (resume key f ev s) ! j)"
proof (cases "fst ev = j")
  case True
  show ?thesis
    using advance_place[of "calls s ! j" key f "snd ev" "cache_file s" "fetches s"]
    by (simp add: True resume_self[OF True assms])
next
  case False
  then show ?thesis by (simp add: resume_other)
qed

lemma run_place:
  "j < length (calls s) \<Longrightarrow>
   min 7 (place (calls s ! j) + count_list (map fst evs) j)
     \<le> place (calls (run key f evs s) ! j)"
proof (induction evs arbitrary: s)
  case Nil
  then show ?case by simp
next
  case (Cons ev evs)
  have j': "j < length (calls (resume key f ev s))"
    using Cons.prems by (simp add: length_calls_resume)
  have one: "min 7 (place (calls s ! j) + (if fst ev = j then 1 else 0))
               \<le> place (calls (resume key f ev s) ! j)"
    using Cons.prems by (rule resume_place)
  have rest: "min 7 (place (calls (resume key f ev s) ! j) + count_list (map fst evs) j)
                \<le> place (calls (run key f evs (resume key f ev s)) ! j)"
    using j' by (rule Cons.IH)
  show ?case
    using one rest by (simp add: min_def split: if_splits)
qed

lemma resume_no_hit:
  assumes "fst ev < length (calls s) \<and> calls s ! fst ev = Looking \<longrightarrow>
             \<not> truthy (fst (getFromCache key (snd ev) (cache_file s)))"
    and "\<forall>j < length (calls s). \<forall>v. calls s ! j \<noteq> Hit v"
  shows "\<forall>j < length (calls (resume key f ev s)). \<forall>v. calls (resume key f ev s) ! j \<noteq> Hit v"
proof (intro allI impI)
  fix j v assume "j < length (calls (resume key f ev s))"
  then have j: "j < length (calls s)" by (simp add: length_calls_resume)
  show "calls (resume key f ev s) ! j \<noteq> Hit v"
  proof (cases "fst ev = j")
    case True
    have "\<forall>v. fst (advance key f (snd ev) (calls s ! j) (cache_file s) (fetches s)) \<noteq> Hit v"
      using assms j True by (intro advance_no_hit) auto
    then show ?thesis by (simp add: resume_self[OF True j])
  next
    case False
    then show ?thesis using assms(2) j by (simp add: resume_other)
  qed
qed

lemma run_no_hit:
  "lookups_miss key f evs s \<Longrightarrow> \<forall>j < length (calls s). \<forall>v. calls s ! j \<noteq> Hit v \<Longrightarrow>
   \<forall>j < length (calls s). \<forall>v. calls (run key f evs s) ! j \<noteq> Hit v"
proof (induction evs arbitrary: s)
  case Nil
  then show ?case by simp
next
  case (Cons ev evs)
  have miss: "fst ev < length (calls s) \<and> calls s ! fst ev = Looking \<longrightarrow>
             \<not> truthy (fst (getFromCache key (snd ev) (cache_file s)))"
    and later: "lookups_miss key f evs (resume key f ev s)"
    using Cons.prems(1) by simp_all
  have "\<forall>j < length (calls (resume key f ev s)). \<forall>v. calls (resume key f ev s) ! j \<noteq> Hit v"
    using miss Cons.prems(2) by (rule resume_no_hit)
  from Cons.IH[OF later this] show ?case
    by (simp add: length_calls_resume)
qed

subsection \<open>No single flight\<close>

text \<open>
  Claim C1, as stated: when \<open>N\<close> calls for one key all miss the cache, \<open>fetchFn\<close> is
  invoked exactly once. It fails for two calls on an empty cache resumed in turn: both
  look before either has saved, both miss, and each calls \<open>fetchFn\<close>; the function is
  invoked twice (and the file written twice).
\<close>

theorem single_flight_counterexample:
  "run ''k1'' (always (Inr (JStr ''v1'') :: unit + json)) in_turns (start (holding []) 2)
     = \<lparr>cache_file = \<lparr>stored = Some (Doc [(''k1'', \<lparr>timestamp = 3, data = JStr ''v1''\<rparr>)]),
                       readable = True, writable = True, writes = 2\<rparr>,
        fetches = 2,
        calls = [Settled 0 (Inr (JStr ''v1'')), Settled 1 (Inr (JStr ''v1''))]\<rparr>"
  by (simp add: in_turns_def start_def resume_def always_def getFromCache_def fs_defs
        set_property_def holding_def numeral_2_eq_2)

text \<open>
  Claim C1, amended: when \<open>N\<close> calls of \<open>getCachedOrFetch\<close> for one key are in flight
  together and all miss the cache (each lookup, at the moment it is made, finds nothing
  truthy), then under every schedule that resumes each call until it settles (seven
  resumptions always do), \<open>fetchFn\<close> is invoked exactly \<open>N\<close> times, once by each call;
  every call settles to the outcome, value or failure, of an invocation, and no two
  calls to that of the same one.
\<close>

theorem every_missing_call_fetches:
  assumes "lookups_miss key fetchFn evs (start w N)"
    and "\<forall>j < N. 7 \<le> count_list (map fst evs) j"
  shows "fetches (run key fetchFn evs (start w N)) = N \<and>
         (\<forall>j < N. \<exists>i < N. calls (run key fetchFn evs (start w N)) ! j = Settled i (fetchFn i)) \<and>
         (\<forall>j < N. \<forall>k < N.
            invocation (calls (run key fetchFn evs (start w N)) ! j)
              = invocation (calls (run key fetchFn evs (start w N)) ! k) \<longrightarrow> j = k)"
proof -
  let ?s = "run key fetchFn evs (start w N)"
  have len0: "length (calls (start w N :: 'a flight)) = N"
    by (simp add: start_def)
  have len: "length (calls ?s) = N"
    by (simp add: length_calls_run len0)
  have ok: "sound fetchFn ?s"
    by (rule sound_run) (rule sound_start)
  have happened: "\<And>j i. j < N \<Longrightarrow> invocation (calls ?s ! j) = Some i \<Longrightarrow> i < fetches ?s"
    using ok unfolding sound_def len by blast
  have own: "\<And>j k i. j < N \<Longrightarrow> k < N \<Longrightarrow> invocation (calls ?s ! j) = Some i \<Longrightarrow>
               invocation (calls ?s ! k) = Some i \<Longrightarrow> j = k"
    using ok unfolding sound_def len by blast
  have nh: "\<forall>j < length (calls (start w N :: 'a flight)). \<forall>v. calls ?s ! j \<noteq> Hit v"
    using assms(1) by (rule run_no_hit) (simp add: start_def)
  have settled: "\<exists>i r. calls ?s ! j = Settled i r" if j: "j < N" for j
  proof -
    have "min 7 (place (calls (start w N :: 'a flight) ! j) + count_list (map fst evs) j)
            \<le> place (calls ?s ! j)"
      using j len0 by (intro run_place) simp
    moreover have "place (calls (start w N :: 'a flight) ! j) = 0"
      using j by (simp add: start_def)
    moreover have "7 \<le> count_list (map fst evs) j"
      using assms(2) j by simp
    ultimately have "7 \<le> place (calls ?s ! j)" by simp
    then have "place (calls ?s ! j) = 7"
      using place_le[of "calls ?s ! j"] by simp
    then show ?thesis
      using place_settled[of "calls ?s ! j"] nh j len0 by auto
  qed
  have all_missed: "\<forall>c \<in> set (calls ?s). missed c"
  proof
    fix c assume "c \<in> set (calls ?s)"
    then obtain j where "j < N" and "c = calls ?s ! j"
      using len by (auto simp: in_set_conv_nth)
    then show "missed c" using settled[of j] by auto
  qed
  have "fetches ?s = length (filter missed (calls ?s))"
    using ok by (simp add: sound_def)
  also have "\<dots> = N"
    using all_missed len by simp
  finally have a: "fetches ?s = N" .
  have b: "\<forall>j < N. \<exists>i < N. calls ?s ! j = Settled i (fetchFn i)"
  proof (intro allI impI)
    fix j assume j: "j < N"
    obtain i r where c: "calls ?s ! j = Settled i r"
      using settled[OF j] by blast
    have "agrees fetchFn (calls ?s ! j)"
      using ok j len by (simp add: sound_def)
    then have r: "r = fetchFn i" by (simp add: c)
    have "invocation (calls ?s ! j) = Some i" by (simp add: c)
    then have "i < fetches ?s"
      using j by (rule happened[rotated])
    then show "\<exists>i < N. calls ?s ! j = Settled i (fetchFn i)"
      using a c r by auto
  qed
  have c: "\<forall>j < N. \<forall>k < N. invocation (calls ?s ! j) = invocation (calls ?s ! k) \<longrightarrow> j = k"
  proof (intro allI impI)
    fix j k assume j: "j < N" and k: "k < N"
      and eq: "invocation (calls ?s ! j) = invocation (calls ?s ! k)"
    obtain i r where "calls ?s ! j = Settled i r"
      using settled[OF j] by blast
    then have "invocation (calls ?s ! j) = Some i" by simp
    moreover from this have "invocation (calls ?s ! k) = Some i" using eq by simp
    ultimately show "j = k"
      using j k by (intro own)
  qed
  show ?thesis using a b c by blast
qed

theorem every_missing_call_fetches_witness:
  "lookups_miss ''k1'' (always (Inr (JStr ''v1'') :: unit + json)) seven_rounds
     (start (holding []) 2) \<and>
   7 \<le> count_list (map fst seven_rounds) 0 \<and> 7 \<le> count_list (map fst seven_rounds) 1 \<and>
   fetches (run ''k1'' (always (Inr (JStr ''v1'') :: unit + json)) seven_rounds
              (start (holding []) 2)) = 2 \<and>
   calls (run ''k1'' (always (Inr (JStr ''v1'') :: unit + json)) seven_rounds
            (start (holding []) 2))
     = [Settled 0 (Inr (JStr ''v1'')), Settled 1 (Inr (JStr ''v1''))]"
proof -
  have m: "lookups_miss ''k1'' (always (Inr (JStr ''v1'') :: unit + json)) seven_rounds
     (start (holding []) 2)"
    by (simp add: seven_rounds_def start_def resume_def always_def getFromCache_def fs_defs
          set_property_def holding_def numeral_2_eq_2)
  have n: "\<forall>j < 2. 7 \<le> count_list (map fst seven_rounds) j"
    by (simp add: seven_rounds_def less_Suc_eq numeral_2_eq_2)
  have r: "calls (run ''k1'' (always (Inr (JStr ''v1'') :: unit + json)) seven_rounds
            (start (holding []) 2))
     = [Settled 0 (Inr (JStr ''v1'')), Settled 1 (Inr (JStr ''v1''))]"
    by (simp add: seven_rounds_def start_def resume_def always_def getFromCache_def fs_defs
          set_property_def holding_def numeral_2_eq_2)
  show ?thesis
    using m n r every_missing_call_fetches[OF m n]
    by (simp add: seven_rounds_def)
qed

end
